theory Spec2Isabelle
  imports Main "HOL-Library.AList" "HOL-Library.Multiset"
begin

section \<open>A response cache in front of a chat-completion client (main.go)\<close>

text \<open>
  The program keeps a map from request digests to cached responses in one JSON file,
  \<^verbatim>\<open>cache/response-cache.json\<close>. Every call of \<^verbatim>\<open>getResponse\<close> loads the
  whole file, looks the digest of the request up, calls the remote API on a miss, inserts
  the answer, evicts the oldest entries while the payload bytes exceed the configured limit,
  and writes the whole file back.

  Conventions of the embedding.
  \<^item> A Go \<^verbatim>\<open>string\<close> is a byte sequence: \<^typ>\<open>string\<close>, and \<^verbatim>\<open>len\<close> is
    \<^const>\<open>length\<close>.
  \<^item> A \<^verbatim>\<open>time.Time\<close> is the instant it denotes, an \<^typ>\<open>int\<close> (nanoseconds);
    \<^verbatim>\<open>a.Before(b)\<close> is \<open>a < b\<close>. The value of \<^verbatim>\<open>time.Now()\<close> is an argument
    of the call that reads it.
  \<^item> \<^verbatim>\<open>int64\<close> values are \<^typ>\<open>int\<close>. The only arithmetic is the running sum
    of the lengths of the strings held by one map, and its decrease by the same lengths: the
    strings are separate objects of one address space, so the sum stays below \<open>2^63\<close>
    and never wraps. The limit is any \<^typ>\<open>int\<close>, which covers every \<^verbatim>\<open>int64\<close>,
    negative ones included (the flag \<^verbatim>\<open>-cache-size-limit\<close> accepts them).
  \<^item> A function returning \<^verbatim>\<open>(T, error)\<close> with exactly one of the two set returns
    \<open>error + T\<close>; a function returning only \<^verbatim>\<open>error\<close> returns \<open>error option\<close>
    (\<open>None\<close> is \<^verbatim>\<open>nil\<close>); \<^verbatim>\<open>getResponse\<close> returns its triple as it is.
  \<^item> A run-time panic is a value of its own, \<open>Panic\<close>.
\<close>

subsection \<open>Go maps\<close>

text \<open>
  A Go map value is either \<^verbatim>\<open>nil\<close> or an allocated table. Reading, \<^verbatim>\<open>len\<close>,
  \<^verbatim>\<open>range\<close> and \<^verbatim>\<open>delete\<close> treat \<^verbatim>\<open>nil\<close> as the empty map; assigning
  to an entry of a \<^verbatim>\<open>nil\<close> map panics.

  The table is an association list with distinct keys. Its order stands for the order in
  which \<^verbatim>\<open>range\<close> yields the entries, which Go leaves unspecified: a statement
  proved for every list is proved for every iteration order.
\<close>

datatype 'v gomap = NilMap | GoMap "(string \<times> 'v) list"

fun map_range :: "'v gomap \<Rightarrow> (string \<times> 'v) list" where
  "map_range NilMap = []"
| "map_range (GoMap kvs) = kvs"

definition map_len :: "'v gomap \<Rightarrow> nat" where
  "map_len m = length (map_range m)"

text \<open>\<^verbatim>\<open>v, found := m[k]\<close>\<close>

definition map_get :: "'v gomap \<Rightarrow> string \<Rightarrow> 'v option" where
  "map_get m k = map_of (map_range m) k"

text \<open>\<^verbatim>\<open>m[k] = v\<close>: \<open>None\<close> is the panic "assignment to entry in nil map".\<close>

fun map_set :: "'v gomap \<Rightarrow> string \<Rightarrow> 'v \<Rightarrow> 'v gomap option" where
  "map_set NilMap k v = None"
| "map_set (GoMap kvs) k v = Some (GoMap (AList.update k v kvs))"

text \<open>\<^verbatim>\<open>delete(m, k)\<close>\<close>

fun map_delete :: "'v gomap \<Rightarrow> string \<Rightarrow> 'v gomap" where
  "map_delete NilMap k = NilMap"
| "map_delete (GoMap kvs) k = GoMap (AList.delete k kvs)"

definition map_keys_distinct :: "'v gomap \<Rightarrow> bool" where
  "map_keys_distinct m = distinct (map fst (map_range m))"

subsection \<open>Types of main.go\<close>

record CacheEntry =
  Response :: string
  Timestamp :: int

text \<open>The zero value, which \<^verbatim>\<open>m[k]\<close> yields for a key that is not in the map.\<close>

definition zero_CacheEntry :: CacheEntry where
  "zero_CacheEntry = \<lparr>Response = [], Timestamp = 0\<rparr>"

definition map_index :: "CacheEntry gomap \<Rightarrow> string \<Rightarrow> CacheEntry" where
  "map_index m k = (case map_get m k of None \<Rightarrow> zero_CacheEntry | Some e \<Rightarrow> e)"

record Cache =
  Responses :: "CacheEntry gomap"

text \<open>
  \<^verbatim>\<open>CachingClient\<close> embeds the API client. Of that client the program uses one method,
  \<^verbatim>\<open>CreateChatCompletion\<close>; it is a field here, from a request to either an error
  or the message contents of the choices of the response, in order. The request type
  \<open>'r\<close> stands for \<^verbatim>\<open>openai.ChatCompletionRequest\<close>.
\<close>

record 'r CachingClient =
  CreateChatCompletion :: "'r \<Rightarrow> string + string list"
  cacheEnabled :: bool
  cacheSizeLimit :: int

datatype error =
    ApiError string
  | MarshalRequestError
  | ReadFileError
  | UnmarshalError
  | MkdirAllError
  | MarshalIndentError
  | WriteFileError
  | RemoveAllError

datatype panic = IndexOutOfRange | AssignmentToNilMap

datatype 'a outcome = Panic panic | Returns 'a

subsection \<open>generateHash\<close>

text \<open>
  \<^verbatim>\<open>json.Marshal\<close> on a request and \<^verbatim>\<open>sha256.Sum256\<close> are library functions; they are
  parameters. \<^verbatim>\<open>hex.EncodeToString\<close> writes two lower-case digits for each byte.
\<close>

record 'r Lib =
  json_Marshal :: "'r \<Rightarrow> string option"
  sha256_Sum256 :: "string \<Rightarrow> string"

definition hextable :: string where
  "hextable = ''0123456789abcdef''"

fun hex_EncodeToString :: "string \<Rightarrow> string" where
  "hex_EncodeToString [] = []"
| "hex_EncodeToString (b # bs) =
     hextable ! ((of_char b :: nat) div 16) # hextable ! ((of_char b :: nat) mod 16)
       # hex_EncodeToString bs"

definition generateHash :: "'r Lib \<Rightarrow> 'r \<Rightarrow> error + string" where
  "generateHash lib req =
     (case json_Marshal lib req of
        None \<Rightarrow> Inl MarshalRequestError
      | Some data \<Rightarrow> Inr (hex_EncodeToString (sha256_Sum256 lib data)))"

subsection \<open>The cache file\<close>

text \<open>
  What the program can observe of \<^verbatim>\<open>cache/response-cache.json\<close>:
  \<^item> \<open>NotExist\<close>: \<^verbatim>\<open>os.Stat\<close> reports that the file does not exist;
  \<^item> \<open>Unreadable\<close>: \<^verbatim>\<open>os.Stat\<close> does not report that, and \<^verbatim>\<open>os.ReadFile\<close>
    fails;
  \<^item> \<open>Unparsable\<close>: the bytes are read and \<^verbatim>\<open>json.Unmarshal\<close> rejects them;
  \<^item> \<open>Parses c\<close>: \<^verbatim>\<open>json.Unmarshal\<close> accepts the bytes and leaves \<open>c\<close> in the
    target. The target is a fresh \<^verbatim>\<open>Cache\<close>, whose map is \<^verbatim>\<open>nil\<close>, and the
    decoder allocates the map only when it meets an object under \<^verbatim>\<open>"responses"\<close>:
    the documents \<^verbatim>\<open>{}\<close> and \<^verbatim>\<open>{"responses": null}\<close> are \<open>Parses\<close> of a
    cache whose map is \<open>NilMap\<close>.

  Writing a cache and reading it back gives the same cache: the encoder writes every
  entry, an instant as RFC 3339 with nanoseconds and a payload as a JSON string, which is
  lossless on the valid UTF-8 that the API client delivers.

  The remaining fields say how the file system answers the next requests: whether
  \<^verbatim>\<open>os.MkdirAll\<close>, \<^verbatim>\<open>json.MarshalIndent\<close>, \<^verbatim>\<open>os.WriteFile\<close> and
  \<^verbatim>\<open>os.RemoveAll\<close> fail, what a failed write leaves behind (it may have truncated the
  file), and whether a failed removal had already deleted the file. \<open>save_calls\<close>
  counts the calls of \<^verbatim>\<open>saveCache\<close>.
\<close>

datatype file_state = NotExist | Unreadable | Unparsable | Parses Cache

record World =
  cache_file :: file_state
  mkdir_fails :: bool
  marshal_fails :: bool
  write_fails :: bool
  write_leaves :: file_state
  remove_fails :: bool
  remove_deleted :: bool
  save_calls :: nat

definition loadCache :: "World \<Rightarrow> error + Cache" where
  "loadCache w =
     (case cache_file w of
        NotExist \<Rightarrow> Inr \<lparr>Responses = GoMap []\<rparr>
      | Unreadable \<Rightarrow> Inl ReadFileError
      | Unparsable \<Rightarrow> Inl UnmarshalError
      | Parses cache \<Rightarrow> Inr cache)"

definition saveCache :: "Cache \<Rightarrow> World \<Rightarrow> error option \<times> World" where
  "saveCache cache w0 =
     (let w = w0\<lparr>save_calls := Suc (save_calls w0)\<rparr> in
      if mkdir_fails w then (Some MkdirAllError, w)
      else if marshal_fails w then (Some MarshalIndentError, w)
      else if write_fails w then (Some WriteFileError, w\<lparr>cache_file := write_leaves w\<rparr>)
      else (None, w\<lparr>cache_file := Parses cache\<rparr>))"

definition clearCache :: "World \<Rightarrow> error option \<times> World" where
  "clearCache w =
     (if remove_fails w
      then (Some RemoveAllError,
            if remove_deleted w then w\<lparr>cache_file := NotExist\<rparr> else w)
      else (None, w\<lparr>cache_file := NotExist\<rparr>))"

subsection \<open>NewCachingClient and fetchResponse\<close>

text \<open>The first argument stands for \<^verbatim>\<open>openai.NewClient(apiKey)\<close>.\<close>

definition NewCachingClient ::
  "('r \<Rightarrow> string + string list) \<Rightarrow> bool \<Rightarrow> int \<Rightarrow> 'r CachingClient" where
  "NewCachingClient client enabled limit =
     \<lparr>CreateChatCompletion = client, cacheEnabled = enabled, cacheSizeLimit = limit\<rparr>"

text \<open>\<^verbatim>\<open>resp.Choices[0]\<close> panics when the response has no choice.\<close>

definition fetchResponse ::
  "'r CachingClient \<Rightarrow> 'r \<Rightarrow> (string \<times> bool \<times> error option) outcome" where
  "fetchResponse c req =
     (case CreateChatCompletion c req of
        Inl err \<Rightarrow> Returns ([], False, Some (ApiError err))
      | Inr choices \<Rightarrow>
          (case choices of
             [] \<Rightarrow> Panic IndexOutOfRange
           | content # _ \<Rightarrow> Returns (content, False, None)))"

subsection \<open>evictIfNeeded\<close>

text \<open>The first loop: \<^verbatim>\<open>cacheSize += int64(len(entry.Response))\<close> over the map.\<close>

fun sum_sizes :: "int \<Rightarrow> (string \<times> CacheEntry) list \<Rightarrow> int" where
  "sum_sizes cacheSize [] = cacheSize"
| "sum_sizes cacheSize ((hash, entry) # rest) =
     sum_sizes (cacheSize + int (length (Response entry))) rest"

text \<open>
  The second loop collects a \<^verbatim>\<open>{Hash, Timestamp}\<close> pair for each entry, and
  \<^verbatim>\<open>sort.Slice\<close> orders the pairs by \<^verbatim>\<open>Timestamp.Before\<close>. \<^verbatim>\<open>sort.Slice\<close> is
  not stable, so pairs with equal instants end in an arbitrary order; the model sorts
  stably (\<^const>\<open>sort_key\<close> is insertion sort), and the arbitrary order of the list it
  sorts accounts for every outcome.
\<close>

definition collect_entries :: "CacheEntry gomap \<Rightarrow> (string \<times> int) list" where
  "collect_entries m = map (\<lambda>(hash, entry). (hash, Timestamp entry)) (map_range m)"

text \<open>
  The third loop, on the running size, the cache and the sorted pairs:
  \<^verbatim>\<open>for cacheSize > c.cacheSizeLimit && len(entries) > 0 { ... }\<close>
\<close>

fun evict_loop :: "int \<Rightarrow> int \<Rightarrow> Cache \<Rightarrow> (string \<times> int) list \<Rightarrow> int \<times> Cache" where
  "evict_loop limit cacheSize cache [] = (cacheSize, cache)"
| "evict_loop limit cacheSize cache (oldest # entries) =
     (if cacheSize > limit
      then evict_loop limit
             (cacheSize - int (length (Response (map_index (Responses cache) (fst oldest)))))
             (cache\<lparr>Responses := map_delete (Responses cache) (fst oldest)\<rparr>)
             entries
      else (cacheSize, cache))"

definition evictIfNeeded :: "'r CachingClient \<Rightarrow> Cache \<Rightarrow> error option \<times> Cache" where
  "evictIfNeeded c cache =
     (let cacheSize = sum_sizes 0 (map_range (Responses cache)) in
      if cacheSize \<le> cacheSizeLimit c then (None, cache)
      else
        let entries = sort_key snd (collect_entries (Responses cache))
        in (None, snd (evict_loop (cacheSizeLimit c) cacheSize cache entries)))"

subsection \<open>getResponse\<close>

definition getResponse ::
  "'r Lib \<Rightarrow> 'r CachingClient \<Rightarrow> int \<Rightarrow> 'r \<Rightarrow> World
     \<Rightarrow> (string \<times> bool \<times> error option) outcome \<times> World" where
  "getResponse lib c now req w =
     (if \<not> cacheEnabled c then (fetchResponse c req, w)
      else
        case loadCache w of
          Inl err \<Rightarrow> (Returns ([], False, Some err), w)
        | Inr cache \<Rightarrow>
        (case generateHash lib req of
           Inl err \<Rightarrow> (Returns ([], False, Some err), w)
         | Inr hash \<Rightarrow>
         (case map_get (Responses cache) hash of
            Some found \<Rightarrow>
              (let entry = found\<lparr>Timestamp := now\<rparr> in
               case map_set (Responses cache) hash entry of
                 None \<Rightarrow> (Panic AssignmentToNilMap, w)
               | Some m \<Rightarrow>
                   (case saveCache (cache\<lparr>Responses := m\<rparr>) w of
                      (Some err, w') \<Rightarrow> (Returns ([], False, Some err), w')
                    | (None, w') \<Rightarrow> (Returns (Response entry, True, None), w')))
          | None \<Rightarrow>
              (case fetchResponse c req of
                 Panic p \<Rightarrow> (Panic p, w)
               | Returns (response, _, Some err) \<Rightarrow> (Returns ([], False, Some err), w)
               | Returns (response, _, None) \<Rightarrow>
                   (case map_set (Responses cache) hash
                           \<lparr>Response = response, Timestamp = now\<rparr> of
                      None \<Rightarrow> (Panic AssignmentToNilMap, w)
                    | Some m \<Rightarrow>
                        (case evictIfNeeded c (cache\<lparr>Responses := m\<rparr>) of
                           (Some err, _) \<Rightarrow> (Returns ([], False, Some err), w)
                         | (None, cache') \<Rightarrow>
                             (case saveCache cache' w of
                                (Some err, w') \<Rightarrow> (Returns ([], False, Some err), w')
                              | (None, w') \<Rightarrow> (Returns (response, False, None), w'))))))))"

subsection \<open>Calls in sequence\<close>

text \<open>
  A caller (the loops of \<^verbatim>\<open>main\<close> and of the test) issues one call after another
  on the same client; each call reads the clock anew. A panic ends the process, so the
  calls after it are not made.
\<close>

fun getResponses ::
  "'r Lib \<Rightarrow> 'r CachingClient \<Rightarrow> (int \<times> 'r) list \<Rightarrow> World
     \<Rightarrow> (string \<times> bool \<times> error option) outcome list \<times> World" where
  "getResponses lib c [] w = ([], w)"
| "getResponses lib c ((now, req) # calls) w =
     (case getResponse lib c now req w of
        (Panic p, w') \<Rightarrow> ([Panic p], w')
      | (Returns r, w') \<Rightarrow>
          (case getResponses lib c calls w' of (rs, w'') \<Rightarrow> (Returns r # rs, w'')))"

section \<open>Vocabulary of the specification\<close>

text \<open>
  The payload size of an entry, the total payload size of a list of entries and of a
  cache, and the entries of a cache ranked by \<open>lastAccessed\<close>, oldest first.
\<close>

definition entry_size :: "string \<times> CacheEntry \<Rightarrow> int" where
  "entry_size kv = int (length (Response (snd kv)))"

definition payload_bytes :: "(string \<times> CacheEntry) list \<Rightarrow> int" where
  "payload_bytes kvs = sum_list (map entry_size kvs)"

definition total_size :: "Cache \<Rightarrow> int" where
  "total_size cache = payload_bytes (map_range (Responses cache))"

definition ranked :: "Cache \<Rightarrow> (string \<times> CacheEntry) list" where
  "ranked cache = sort_key (\<lambda>kv. Timestamp (snd kv)) (map_range (Responses cache))"

text \<open>
  The size bound as the specification words it: the total is within the limit, or exactly
  one entry remains and it alone exceeds the limit.
\<close>

definition size_bound_as_specified :: "int \<Rightarrow> Cache \<Rightarrow> bool" where
  "size_bound_as_specified limit cache =
     (total_size cache \<le> limit \<or>
      (length (map_range (Responses cache)) = 1 \<and>
       limit < payload_bytes (map_range (Responses cache))))"

text \<open>A cache file that parses holds a JSON object, whose keys are distinct after decoding.\<close>

definition file_keys_distinct :: "World \<Rightarrow> bool" where
  "file_keys_distinct w =
     (case cache_file w of
        Parses cache \<Rightarrow> map_keys_distinct (Responses cache)
      | _ \<Rightarrow> True)"

text \<open>Every \<^verbatim>\<open>saveCache\<close> of this world succeeds.\<close>

definition saves_succeed :: "World \<Rightarrow> bool" where
  "saves_succeed w = (\<not> mkdir_fails w \<and> \<not> marshal_fails w \<and> \<not> write_fails w)"

section \<open>Auxiliary functions\<close>

text \<open>
  The number of rounds of the eviction loop, from the limit, the size at its start and
  the sizes of the ranked entries; a cache with a list of keys deleted; the size that the
  loop subtracts for a sorted pair.
\<close>

fun evict_count :: "int \<Rightarrow> int \<Rightarrow> int list \<Rightarrow> nat" where
  "evict_count limit bytes [] = 0"
| "evict_count limit bytes (s # ss) =
     (if bytes > limit then Suc (evict_count limit (bytes - s) ss) else 0)"

definition evict_k :: "int \<Rightarrow> Cache \<Rightarrow> nat" where
  "evict_k limit cache =
     evict_count limit (total_size cache) (map entry_size (ranked cache))"

fun delete_all :: "Cache \<Rightarrow> string list \<Rightarrow> Cache" where
  "delete_all cache [] = cache"
| "delete_all cache (k # ks) =
     delete_all (cache\<lparr>Responses := map_delete (Responses cache) k\<rparr>) ks"

definition size_at :: "Cache \<Rightarrow> string \<times> int \<Rightarrow> int" where
  "size_at cache e = int (length (Response (map_index (Responses cache) (fst e))))"

section \<open>Example values\<close>

text \<open>
  Concrete values for the instances below. Requests are strings. \<open>echo_api\<close> answers a
  request with the request itself as its only choice and rejects the empty request;
  \<open>plain_lib\<close> marshals a request to its own bytes and uses the identity in the place
  of the digest, so that the key of a request is the hexadecimal form of its text.
  \<open>cold_world\<close> has no cache file and no failing operation; \<open>warm_world\<close> holds one
  entry of eight bytes under the key \<open>61\<close>; \<open>empty_object_world\<close> holds the JSON
  document \<^verbatim>\<open>{}\<close>.
\<close>

definition echo_api :: "string \<Rightarrow> string + string list" where
  "echo_api req = (if req = [] then Inl ''empty request'' else Inr [req])"

definition echo_client :: "int \<Rightarrow> string CachingClient" where
  "echo_client limit = NewCachingClient echo_api True limit"

definition plain_lib :: "string Lib" where
  "plain_lib = \<lparr>json_Marshal = (\<lambda>req. Some req), sha256_Sum256 = (\<lambda>data. data)\<rparr>"

definition cold_world :: World where
  "cold_world =
     \<lparr>cache_file = NotExist, mkdir_fails = False, marshal_fails = False, write_fails = False,
      write_leaves = Unparsable, remove_fails = False, remove_deleted = False, save_calls = 0\<rparr>"

definition warm_world :: World where
  "warm_world =
     cold_world\<lparr>cache_file := Parses
       \<lparr>Responses = GoMap [(''61'', \<lparr>Response = ''aaaaaaaa'', Timestamp = 1\<rparr>)]\<rparr>\<rparr>"

definition empty_object_world :: World where
  "empty_object_world = cold_world\<lparr>cache_file := Parses \<lparr>Responses = NilMap\<rparr>\<rparr>"

definition one_entry_cache :: Cache where
  "one_entry_cache = \<lparr>Responses = GoMap [(''6b'', \<lparr>Response = ''abc'', Timestamp = 5\<rparr>)]\<rparr>"

text \<open>
  The scenario of the specification: three entries of 40 bytes with the instants 1, 2 and
  3, listed in another order, against a limit of 100 bytes.
\<close>

definition abc_cache :: Cache where
  "abc_cache =
     \<lparr>Responses = GoMap
        [(''c'', \<lparr>Response = replicate 40 (CHR ''C''), Timestamp = 3\<rparr>),
         (''a'', \<lparr>Response = replicate 40 (CHR ''A''), Timestamp = 1\<rparr>),
         (''b'', \<lparr>Response = replicate 40 (CHR ''B''), Timestamp = 2\<rparr>)]\<rparr>"

section \<open>Lemmas\<close>

subsection \<open>Lists\<close>

lemma insort_key_map_image:
  "insort_key f (g x) (map g xs) = map g (insort_key (\<lambda>y. f (g y)) x xs)"
  by (induction xs) simp_all

lemma sort_key_map_image:
  "sort_key f (map g xs) = map g (sort_key (\<lambda>y. f (g y)) xs)"
  by (induction xs) (simp_all add: insort_key_map_image)

lemma insort_key_snoc:
  "f a < f x \<Longrightarrow> insort_key f a (ys @ [x]) = insort_key f a ys @ [x]"
  by (induction ys) (simp_all add: less_imp_le)

lemma sort_key_snoc:
  "\<forall>y \<in> set xs. f y < f x \<Longrightarrow> sort_key f (xs @ [x]) = sort_key f xs @ [x]"
  by (induction xs) (simp_all add: insort_key_snoc)

lemma filter_not_in_take:
  assumes "distinct xs"
  shows "filter (\<lambda>x. x \<notin> set (take k xs)) xs = drop k xs"
proof -
  let ?P = "\<lambda>x. x \<notin> set (take k xs)"
  have "distinct (take k xs @ drop k xs)" using assms by simp
  then have disj: "set (take k xs) \<inter> set (drop k xs) = {}" by (simp only: distinct_append)
  have "filter ?P xs = filter ?P (take k xs) @ filter ?P (drop k xs)"
    by (metis filter_append append_take_drop_id)
  moreover have "filter ?P (take k xs) = []" by (simp add: filter_empty_conv)
  moreover have "filter ?P (drop k xs) = drop k xs"
    using disj by (auto simp: filter_id_conv)
  ultimately show ?thesis by simp
qed

lemma update_absent:
  "map_of al k = None \<Longrightarrow> AList.update k v al = al @ [(k, v)]"
  by (induction al) (auto split: if_splits)

subsection \<open>The digest as a key\<close>

text \<open>
  \<^verbatim>\<open>hex.EncodeToString\<close> is injective, so two requests that marshal get the same key
  exactly when their digests agree.
\<close>

lemma hextable_nth_inj:
  assumes "i < 16" and "j < 16" and "hextable ! i = hextable ! j"
  shows "i = j"
proof -
  have "distinct hextable" by (simp add: hextable_def)
  moreover have "length hextable = 16" by (simp add: hextable_def)
  ultimately show ?thesis using assms by (simp add: nth_eq_iff_index_eq)
qed

lemma of_char_less_256: "(of_char b :: nat) < 256"
proof -
  have "(of_char b :: nat) mod 256 = of_char b" by simp
  then show ?thesis by (metis mod_less_divisor zero_less_numeral)
qed

lemma hex_byte_inj:
  assumes "hextable ! ((of_char a :: nat) div 16) = hextable ! ((of_char b :: nat) div 16)"
    and "hextable ! ((of_char a :: nat) mod 16) = hextable ! ((of_char b :: nat) mod 16)"
  shows "a = b"
proof -
  have da: "(of_char a :: nat) div 16 < 16" using of_char_less_256[of a] by linarith
  have db: "(of_char b :: nat) div 16 < 16" using of_char_less_256[of b] by linarith
  have "(of_char a :: nat) div 16 = of_char b div 16"
    by (rule hextable_nth_inj[OF da db assms(1)])
  moreover have "(of_char a :: nat) mod 16 = of_char b mod 16"
    by (rule hextable_nth_inj[OF _ _ assms(2)]) simp_all
  ultimately have "(of_char a :: nat) = of_char b"
    by (metis div_mult_mod_eq)
  then show ?thesis by simp
qed

lemma hex_EncodeToString_inj:
  "hex_EncodeToString xs = hex_EncodeToString ys \<Longrightarrow> xs = ys"
proof (induction xs arbitrary: ys)
  case Nil
  then show ?case by (cases ys) simp_all
next
  case (Cons x xs)
  then show ?case by (cases ys) (auto dest: hex_byte_inj)
qed

lemma generateHash_eq_iff:
  assumes "json_Marshal lib r1 = Some d1" and "json_Marshal lib r2 = Some d2"
  shows "generateHash lib r1 = generateHash lib r2 \<longleftrightarrow>
           sha256_Sum256 lib d1 = sha256_Sum256 lib d2"
  using assms by (auto simp: generateHash_def dest: hex_EncodeToString_inj)

subsection \<open>Go maps\<close>

lemma map_range_delete:
  "map_range (map_delete m k) = filter (\<lambda>kv. fst kv \<noteq> k) (map_range m)"
  by (cases m) (auto simp: AList.delete_eq intro: filter_cong)

lemma map_index_delete_other:
  "h \<noteq> k \<Longrightarrow> map_index (map_delete m k) h = map_index m h"
  by (cases m) (simp_all add: map_index_def map_get_def delete_conv')

lemma map_index_member:
  assumes "map_keys_distinct m" and "kv \<in> set (map_range m)"
  shows "map_index m (fst kv) = snd kv"
proof -
  from assms have "map_of (map_range m) (fst kv) = Some (snd kv)"
    by (simp add: map_keys_distinct_def)
  then show ?thesis by (simp add: map_index_def map_get_def)
qed

lemma map_get_Some_GoMap:
  "map_get m k = Some v \<Longrightarrow> m = GoMap (map_range m)"
  by (cases m) (simp_all add: map_get_def)

lemma map_set_Some:
  "map_set m k v = Some m' \<Longrightarrow> m' = GoMap (AList.update k v (map_range m))"
  by (cases m) auto

subsection \<open>Payload sizes and the ranking\<close>

lemma sum_sizes_eq: "sum_sizes acc kvs = acc + payload_bytes kvs"
  by (induction acc kvs rule: sum_sizes.induct) (simp_all add: payload_bytes_def entry_size_def)

lemma payload_bytes_mset:
  "mset xs = mset ys \<Longrightarrow> payload_bytes xs = payload_bytes ys"
proof -
  assume "mset xs = mset ys"
  then have "mset (map entry_size xs) = mset (map entry_size ys)" by simp
  then show ?thesis unfolding payload_bytes_def by (metis sum_mset_sum_list)
qed

lemma payload_bytes_take_drop:
  "payload_bytes xs = payload_bytes (take k xs) + payload_bytes (drop k xs)"
  unfolding payload_bytes_def
  by (metis append_take_drop_id map_append sum_list_append)

lemma payload_bytes_take_map:
  "payload_bytes (take j kvs) = sum_list (take j (map entry_size kvs))"
  by (simp add: payload_bytes_def take_map)

lemma total_size_no_entries:
  "map_range (Responses cache) = [] \<Longrightarrow> total_size cache = 0"
  by (simp add: total_size_def payload_bytes_def)

lemma set_ranked [simp]: "set (ranked cache) = set (map_range (Responses cache))"
  by (simp add: ranked_def)

lemma mset_ranked: "mset (ranked cache) = mset (map_range (Responses cache))"
  by (simp add: ranked_def)

lemma length_ranked [simp]: "length (ranked cache) = length (map_range (Responses cache))"
  by (simp add: ranked_def)

lemma sorted_ranked: "sorted (map (\<lambda>kv. Timestamp (snd kv)) (ranked cache))"
  by (simp add: ranked_def)

lemma total_size_ranked: "payload_bytes (ranked cache) = total_size cache"
  unfolding total_size_def by (rule payload_bytes_mset) (rule mset_ranked)

lemma distinct_keys_ranked:
  assumes "map_keys_distinct (Responses cache)"
  shows "distinct (map fst (ranked cache))"
proof -
  have "mset (map fst (ranked cache)) = mset (map fst (map_range (Responses cache)))"
    by (simp add: mset_ranked)
  then show ?thesis
    using assms by (metis map_keys_distinct_def mset_eq_imp_distinct_iff)
qed

lemma distinct_ranked:
  "map_keys_distinct (Responses cache) \<Longrightarrow> distinct (ranked cache)"
  using distinct_keys_ranked distinct_map by blast

lemma sorted_entries:
  "sort_key snd (collect_entries (Responses cache)) =
     map (\<lambda>kv. (fst kv, Timestamp (snd kv))) (ranked cache)"
proof -
  have "collect_entries (Responses cache) =
          map (\<lambda>kv. (fst kv, Timestamp (snd kv))) (map_range (Responses cache))"
    by (simp add: collect_entries_def case_prod_beta)
  then show ?thesis
    by (simp add: sort_key_map_image ranked_def)
qed

lemma sizes_ranked:
  assumes "map_keys_distinct (Responses cache)"
  shows "map (\<lambda>kv. size_at cache (fst kv, Timestamp (snd kv))) (ranked cache) =
           map entry_size (ranked cache)"
  using assms by (simp add: size_at_def entry_size_def map_index_member)

lemma mset_kept:
  assumes "map_keys_distinct (Responses cache)"
  shows "mset (filter (\<lambda>kv. kv \<notin> set (take k (ranked cache))) (map_range (Responses cache))) =
           mset (drop k (ranked cache))"
proof -
  let ?P = "\<lambda>kv. kv \<notin> set (take k (ranked cache))"
  have "mset (filter ?P (map_range (Responses cache))) = filter_mset ?P (mset (ranked cache))"
    by (simp add: mset_ranked)
  also have "\<dots> = mset (filter ?P (ranked cache))" by simp
  also have "\<dots> = mset (drop k (ranked cache))"
    by (simp only: filter_not_in_take[OF distinct_ranked[OF assms]])
  finally show ?thesis .
qed

lemma oldest_first:
  assumes "a \<in> set (take k (ranked cache))" and "b \<in> set (drop k (ranked cache))"
  shows "Timestamp (snd a) \<le> Timestamp (snd b)"
proof -
  let ?f = "\<lambda>kv. Timestamp (snd kv)"
  have "sorted (map ?f (take k (ranked cache)) @ map ?f (drop k (ranked cache)))"
    using sorted_ranked[of cache] by (simp only: map_append[symmetric] append_take_drop_id)
  then have "\<forall>x \<in> set (map ?f (take k (ranked cache))).
               \<forall>y \<in> set (map ?f (drop k (ranked cache))). x \<le> y"
    by (simp only: sorted_append) simp
  with assms show ?thesis by simp
qed

subsection \<open>The eviction loop\<close>

text \<open>
  The loop runs \<open>evict_count\<close> rounds: it goes on exactly while the running size is over
  the limit and a pair is left. Its result is the cache with the keys of these rounds
  deleted, since the sorted pairs have distinct keys and a deletion does not change the
  size found for another key.
\<close>

lemma evict_count_le: "evict_count limit bytes ss \<le> length ss"
  by (induction limit bytes ss rule: evict_count.induct) simp_all

lemma evict_count_needed:
  "j < evict_count limit bytes ss \<Longrightarrow> bytes - sum_list (take j ss) > limit"
proof (induction limit bytes ss arbitrary: j rule: evict_count.induct)
  case (1 limit bytes)
  then show ?case by simp
next
  case (2 limit bytes s ss)
  show ?case
  proof (cases j)
    case 0
    with "2.prems" show ?thesis by (simp split: if_splits)
  next
    case (Suc j')
    with "2.prems" have over: "bytes > limit" and "j' < evict_count limit (bytes - s) ss"
      by (simp_all split: if_splits)
    with "2.IH" have "bytes - s - sum_list (take j' ss) > limit" by simp
    with Suc show ?thesis by simp
  qed
qed

lemma evict_count_stops:
  "bytes - sum_list (take (evict_count limit bytes ss) ss) \<le> limit
     \<or> evict_count limit bytes ss = length ss"
  by (induction limit bytes ss rule: evict_count.induct) auto

lemma map_range_delete_all:
  "map_range (Responses (delete_all cache ks)) =
     filter (\<lambda>kv. fst kv \<notin> set ks) (map_range (Responses cache))"
proof (induction ks arbitrary: cache)
  case Nil
  show ?case by simp
next
  case (Cons k ks)
  show ?case
    by (simp add: Cons.IH map_range_delete conj_commute)
qed

lemma map_index_delete_all_other:
  "h \<notin> set ks \<Longrightarrow> map_index (Responses (delete_all cache ks)) h = map_index (Responses cache) h"
  by (induction ks arbitrary: cache) (simp_all add: map_index_delete_other)

lemma evict_loop_eq:
  assumes "distinct (map fst es)"
  shows "evict_loop limit sz cache es =
           (sz - sum_list (take (evict_count limit sz (map (size_at cache) es)) (map (size_at cache) es)),
            delete_all cache (take (evict_count limit sz (map (size_at cache) es)) (map fst es)))"
  using assms
proof (induction es arbitrary: sz cache)
  case Nil
  show ?case by simp
next
  case (Cons e es)
  let ?cache' = "cache\<lparr>Responses := map_delete (Responses cache) (fst e)\<rparr>"
  have same: "map (size_at ?cache') es = map (size_at cache) es"
  proof (rule map_cong[OF refl])
    fix x assume "x \<in> set es"
    then have "fst x \<in> fst ` set es" by (rule imageI)
    moreover from Cons.prems have "fst e \<notin> fst ` set es" by simp
    ultimately have "fst x \<noteq> fst e" by metis
    then show "size_at ?cache' x = size_at cache x"
      by (simp add: size_at_def map_index_delete_other)
  qed
  from Cons.prems have d: "distinct (map fst es)" by simp
  show ?case
  proof (cases "sz > limit")
    case True
    then show ?thesis
      using Cons.IH[OF d, of "sz - size_at cache e" ?cache']
      by (simp add: same size_at_def[of cache e])
  next
    case False
    then show ?thesis by simp
  qed
qed

lemma entries_after_delete_all:
  assumes "map_keys_distinct (Responses cache)"
  shows "map_range (Responses (delete_all cache (take k (map fst (ranked cache))))) =
           filter (\<lambda>kv. kv \<notin> set (take k (ranked cache))) (map_range (Responses cache))"
proof -
  have inj: "inj_on fst (set (map_range (Responses cache)))"
    using assms by (simp add: map_keys_distinct_def distinct_map)
  have "filter (\<lambda>kv. fst kv \<notin> set (take k (map fst (ranked cache)))) (map_range (Responses cache)) =
        filter (\<lambda>kv. kv \<notin> set (take k (ranked cache))) (map_range (Responses cache))"
  proof (rule filter_cong[OF refl])
    fix kv assume mem: "kv \<in> set (map_range (Responses cache))"
    have "fst kv \<in> set (take k (map fst (ranked cache))) \<longleftrightarrow> kv \<in> set (take k (ranked cache))"
    proof
      assume "fst kv \<in> set (take k (map fst (ranked cache)))"
      then obtain kv' where kv': "kv' \<in> set (take k (ranked cache))" and eq: "fst kv' = fst kv"
        by (auto simp: take_map)
      from kv' have "kv' \<in> set (map_range (Responses cache))"
        using set_take_subset[of k "ranked cache"] by auto
      with inj mem eq have "kv' = kv" by (auto dest: inj_onD)
      with kv' show "kv \<in> set (take k (ranked cache))" by simp
    next
      assume "kv \<in> set (take k (ranked cache))"
      then show "fst kv \<in> set (take k (map fst (ranked cache)))" by (simp add: take_map)
    qed
    then show "(fst kv \<notin> set (take k (map fst (ranked cache)))) = (kv \<notin> set (take k (ranked cache)))"
      by simp
  qed
  then show ?thesis by (simp add: map_range_delete_all)
qed

subsection \<open>evictIfNeeded in closed form\<close>

lemma evictIfNeeded_nil: "evictIfNeeded c cache = (None, snd (evictIfNeeded c cache))"
  by (simp add: evictIfNeeded_def Let_def)

lemma evictIfNeeded_under:
  "total_size cache \<le> cacheSizeLimit c \<Longrightarrow> evictIfNeeded c cache = (None, cache)"
  by (simp add: evictIfNeeded_def sum_sizes_eq total_size_def)

lemma evictIfNeeded_eq:
  assumes "map_keys_distinct (Responses cache)"
  shows "evictIfNeeded c cache =
           (None, if total_size cache \<le> cacheSizeLimit c then cache
                  else delete_all cache
                         (take (evict_k (cacheSizeLimit c) cache) (map fst (ranked cache))))"
proof -
  let ?es = "map (\<lambda>kv. (fst kv, Timestamp (snd kv))) (ranked cache)"
  have keys: "map fst ?es = map fst (ranked cache)" by (simp add: comp_def)
  have d: "distinct (map fst ?es)"
    using distinct_keys_ranked[OF assms] by (simp only: keys)
  have size: "sum_sizes 0 (map_range (Responses cache)) = total_size cache"
    by (simp add: sum_sizes_eq total_size_def)
  show ?thesis
    unfolding evictIfNeeded_def Let_def size sorted_entries evict_loop_eq[OF d]
    by (simp add: sizes_ranked[OF assms] evict_k_def comp_def)
qed

lemma evictIfNeeded_entries:
  assumes "map_keys_distinct (Responses cache)" and "cacheSizeLimit c < total_size cache"
  shows "map_range (Responses (snd (evictIfNeeded c cache))) =
           filter (\<lambda>kv. kv \<notin> set (take (evict_k (cacheSizeLimit c) cache) (ranked cache)))
             (map_range (Responses cache))"
  using assms by (simp add: evictIfNeeded_eq entries_after_delete_all)

lemma evictIfNeeded_keys_distinct:
  assumes "map_keys_distinct (Responses cache)"
  shows "map_keys_distinct (Responses (snd (evictIfNeeded c cache)))"
proof (cases "total_size cache \<le> cacheSizeLimit c")
  case True
  with assms show ?thesis by (simp add: evictIfNeeded_under)
next
  case False
  then have "cacheSizeLimit c < total_size cache" by simp
  from evictIfNeeded_entries[OF assms this] assms show ?thesis
    by (simp add: map_keys_distinct_def distinct_map_filter)
qed

lemma evictIfNeeded_total:
  assumes "map_keys_distinct (Responses cache)" and "cacheSizeLimit c < total_size cache"
  shows "total_size (snd (evictIfNeeded c cache)) =
           total_size cache - payload_bytes (take (evict_k (cacheSizeLimit c) cache) (ranked cache))"
proof -
  let ?k = "evict_k (cacheSizeLimit c) cache"
  have "mset (map_range (Responses (snd (evictIfNeeded c cache)))) = mset (drop ?k (ranked cache))"
    by (simp only: evictIfNeeded_entries[OF assms] mset_kept[OF assms(1)])
  then have "total_size (snd (evictIfNeeded c cache)) = payload_bytes (drop ?k (ranked cache))"
    unfolding total_size_def by (rule payload_bytes_mset)
  then show ?thesis
    using payload_bytes_take_drop[of "ranked cache" ?k] total_size_ranked[of cache] by simp
qed

lemma evictIfNeeded_bound:
  assumes "map_keys_distinct (Responses cache)"
  shows "total_size (snd (evictIfNeeded c cache)) \<le> cacheSizeLimit c
           \<or> map_range (Responses (snd (evictIfNeeded c cache))) = []"
proof (cases "total_size cache \<le> cacheSizeLimit c")
  case True
  then show ?thesis by (simp add: evictIfNeeded_under)
next
  case False
  then have gt: "cacheSizeLimit c < total_size cache" by simp
  let ?k = "evict_k (cacheSizeLimit c) cache"
  from evict_count_stops[where limit = "cacheSizeLimit c" and bytes = "total_size cache"
                           and ss = "map entry_size (ranked cache)"]
  have "total_size cache - payload_bytes (take ?k (ranked cache)) \<le> cacheSizeLimit c
          \<or> ?k = length (ranked cache)"
    by (simp add: evict_k_def payload_bytes_take_map)
  then show ?thesis
  proof
    assume "total_size cache - payload_bytes (take ?k (ranked cache)) \<le> cacheSizeLimit c"
    then show ?thesis by (simp add: evictIfNeeded_total[OF assms gt])
  next
    assume "?k = length (ranked cache)"
    then have "map_range (Responses (snd (evictIfNeeded c cache))) = []"
      by (simp add: evictIfNeeded_entries[OF assms gt] filter_empty_conv)
    then show ?thesis by simp
  qed
qed

lemma newest_entry_survives:
  assumes d: "distinct (map fst kvs)" and absent: "map_of kvs hash = None"
    and older: "\<forall>kv \<in> set kvs. Timestamp (snd kv) < now"
    and fits: "int (length payload) \<le> cacheSizeLimit c"
  shows "map_get (Responses (snd (evictIfNeeded c (cache\<lparr>Responses :=
            GoMap (AList.update hash \<lparr>Response = payload, Timestamp = now\<rparr> kvs)\<rparr>)))) hash =
         Some \<lparr>Response = payload, Timestamp = now\<rparr>"
proof -
  let ?new = "(hash, \<lparr>Response = payload, Timestamp = now\<rparr>)"
  let ?inserted = "cache\<lparr>Responses :=
            GoMap (AList.update hash \<lparr>Response = payload, Timestamp = now\<rparr> kvs)\<rparr>"
  let ?after = "snd (evictIfNeeded c ?inserted)"
  let ?limit = "cacheSizeLimit c"
  let ?old = "sort_key (\<lambda>kv. Timestamp (snd kv)) kvs"
  have upd: "AList.update hash \<lparr>Response = payload, Timestamp = now\<rparr> kvs = kvs @ [?new]"
    by (rule update_absent[OF absent])
  have entries: "map_range (Responses ?inserted) = kvs @ [?new]"
    by (simp add: upd)
  from absent have notin: "hash \<notin> fst ` set kvs" by (simp add: map_of_eq_None_iff)
  from d have dk: "map_keys_distinct (Responses ?inserted)"
    by (simp add: map_keys_distinct_def distinct_update)
  have rk: "ranked ?inserted = ?old @ [?new]"
    unfolding ranked_def entries using older by (intro sort_key_snoc) simp
  have total: "total_size ?inserted = payload_bytes kvs + int (length payload)"
    by (simp add: total_size_def upd payload_bytes_def entry_size_def)
  have old_bytes: "payload_bytes ?old = payload_bytes kvs"
    by (rule payload_bytes_mset) simp
  have kept: "?new \<in> set (map_range (Responses ?after))"
  proof (cases "total_size ?inserted \<le> ?limit")
    case True
    then have "?after = ?inserted" by (simp only: evictIfNeeded_under snd_conv)
    then show ?thesis by (simp add: upd)
  next
    case False
    then have gt: "?limit < total_size ?inserted" by simp
    let ?k = "evict_k ?limit ?inserted"
    have "?k \<le> length kvs"
    proof (rule ccontr)
      assume "\<not> ?k \<le> length kvs"
      then have "length kvs < ?k" by simp
      then have "?limit < total_size ?inserted - payload_bytes (take (length kvs) (ranked ?inserted))"
        using evict_count_needed[where limit = ?limit and bytes = "total_size ?inserted"
                                   and ss = "map entry_size (ranked ?inserted)" and j = "length kvs"]
        by (simp only: evict_k_def payload_bytes_take_map)
      then show False using fits by (simp only: rk total) (simp add: old_bytes)
    qed
    then have "set (take ?k (ranked ?inserted)) \<subseteq> set kvs"
      using set_take_subset[of ?k ?old] by (simp only: rk) simp
    moreover have "?new \<notin> set kvs" using notin by force
    ultimately have "?new \<notin> set (take ?k (ranked ?inserted))" by blast
    then show ?thesis
      by (simp only: evictIfNeeded_entries[OF dk gt] entries) simp
  qed
  have "map_keys_distinct (Responses ?after)"
    by (rule evictIfNeeded_keys_distinct[OF dk])
  with kept show ?thesis
    by (simp add: map_get_def map_keys_distinct_def)
qed

lemma inserted_entry_survives:
  assumes d: "distinct (map fst kvs)" and absent: "map_of kvs hash = None"
    and room: "payload_bytes kvs + int (length payload) \<le> cacheSizeLimit c
               \<or> (int (length payload) \<le> cacheSizeLimit c
                    \<and> (\<forall>kv \<in> set kvs. Timestamp (snd kv) < now))"
  shows "map_get (Responses (snd (evictIfNeeded c (cache\<lparr>Responses :=
            GoMap (AList.update hash \<lparr>Response = payload, Timestamp = now\<rparr> kvs)\<rparr>)))) hash =
         Some \<lparr>Response = payload, Timestamp = now\<rparr>"
  using room
proof
  let ?new = "(hash, \<lparr>Response = payload, Timestamp = now\<rparr>)"
  let ?inserted = "cache\<lparr>Responses :=
            GoMap (AList.update hash \<lparr>Response = payload, Timestamp = now\<rparr> kvs)\<rparr>"
  assume fits: "payload_bytes kvs + int (length payload) \<le> cacheSizeLimit c"
  have upd: "AList.update hash \<lparr>Response = payload, Timestamp = now\<rparr> kvs = kvs @ [?new]"
    by (rule update_absent[OF absent])
  have "total_size ?inserted = payload_bytes kvs + int (length payload)"
    by (simp add: total_size_def upd payload_bytes_def entry_size_def)
  with fits have "snd (evictIfNeeded c ?inserted) = ?inserted"
    by (simp only: evictIfNeeded_under snd_conv)
  then show ?thesis by (simp add: map_get_def update_conv')
next
  assume "int (length payload) \<le> cacheSizeLimit c
            \<and> (\<forall>kv \<in> set kvs. Timestamp (snd kv) < now)"
  then show ?thesis using newest_entry_survives[OF d absent] by blast
qed

text \<open>
  No entry that alone exceeds the limit outlives the eviction, whatever else the cache
  holds.
\<close>

lemma payload_bytes_nonneg: "0 \<le> payload_bytes kvs"
  by (induction kvs) (simp_all add: payload_bytes_def entry_size_def)

lemma entry_size_le_payload_bytes:
  "kv \<in> set kvs \<Longrightarrow> entry_size kv \<le> payload_bytes kvs"
proof (induction kvs)
  case Nil
  then show ?case by simp
next
  case (Cons x xs)
  have step: "payload_bytes (x # xs) = entry_size x + payload_bytes xs"
    by (simp add: payload_bytes_def)
  have "0 \<le> entry_size x" by (simp add: entry_size_def)
  with Cons payload_bytes_nonneg[of xs] show ?case
    by (auto simp: step)
qed

lemma oversized_entry_not_retained:
  assumes "map_keys_distinct (Responses cache)"
    and "kv \<in> set (map_range (Responses (snd (evictIfNeeded c cache))))"
  shows "entry_size kv \<le> cacheSizeLimit c"
proof -
  from assms(2) have "map_range (Responses (snd (evictIfNeeded c cache))) \<noteq> []" by auto
  with evictIfNeeded_bound[OF assms(1), of c]
  have "total_size (snd (evictIfNeeded c cache)) \<le> cacheSizeLimit c" by simp
  moreover from assms(2) have "entry_size kv \<le> total_size (snd (evictIfNeeded c cache))"
    unfolding total_size_def by (rule entry_size_le_payload_bytes)
  ultimately show ?thesis by simp
qed

subsection \<open>The paths of getResponse\<close>

lemma echo_client_eq:
  "echo_client limit =
     \<lparr>CreateChatCompletion = (\<lambda>req. if req = [] then Inl ''empty request'' else Inr [req]),
      cacheEnabled = True, cacheSizeLimit = limit\<rparr>"
  by (simp add: echo_client_def NewCachingClient_def echo_api_def fun_eq_iff)

lemma saveCache_ok:
  "saves_succeed w \<Longrightarrow>
   saveCache cache w = (None, w\<lparr>save_calls := Suc (save_calls w), cache_file := Parses cache\<rparr>)"
  by (simp add: saveCache_def saves_succeed_def Let_def)

lemma saves_succeed_after [simp]:
  "saves_succeed (w\<lparr>save_calls := n, cache_file := f\<rparr>) = saves_succeed w"
  by (simp add: saves_succeed_def)

lemma loadCache_Parses [simp]:
  "loadCache (w\<lparr>save_calls := n, cache_file := Parses cache\<rparr>) = Inr cache"
  by (simp add: loadCache_def)

lemma loadCache_keys_distinct:
  "file_keys_distinct w \<Longrightarrow> loadCache w = Inr cache \<Longrightarrow> map_keys_distinct (Responses cache)"
  by (auto simp: file_keys_distinct_def loadCache_def map_keys_distinct_def
      split: file_state.splits)

lemma getResponse_hit_eq:
  assumes "cacheEnabled c" and "loadCache w = Inr cache" and "generateHash lib req = Inr hash"
    and "map_get (Responses cache) hash = Some entry" and "saves_succeed w"
  shows "getResponse lib c now req w =
           (Returns (Response entry, True, None),
            w\<lparr>save_calls := Suc (save_calls w),
              cache_file := Parses (cache\<lparr>Responses :=
                GoMap (AList.update hash (entry\<lparr>Timestamp := now\<rparr>)
                         (map_range (Responses cache)))\<rparr>)\<rparr>)"
proof -
  from assms(4) have m: "Responses cache = GoMap (map_range (Responses cache))"
    by (rule map_get_Some_GoMap)
  have assign: "map_set (Responses cache) hash (entry\<lparr>Timestamp := now\<rparr>) =
               Some (GoMap (AList.update hash (entry\<lparr>Timestamp := now\<rparr>)
                       (map_range (Responses cache))))"
    by (subst m) simp
  show ?thesis
    by (simp add: getResponse_def assms(1,2,3,4) assign Let_def saveCache_ok[OF assms(5)])
qed

lemma getResponse_miss_eq:
  assumes "cacheEnabled c" and "loadCache w = Inr cache" and "generateHash lib req = Inr hash"
    and "map_get (Responses cache) hash = None"
    and "CreateChatCompletion c req = Inr (payload # others)"
    and "Responses cache = GoMap kvs" and "saves_succeed w"
  shows "getResponse lib c now req w =
           (Returns (payload, False, None),
            w\<lparr>save_calls := Suc (save_calls w),
              cache_file := Parses (snd (evictIfNeeded c (cache\<lparr>Responses :=
                GoMap (AList.update hash \<lparr>Response = payload, Timestamp = now\<rparr> kvs)\<rparr>)))\<rparr>)"
proof -
  have f: "fetchResponse c req = Returns (payload, False, None)"
    by (simp add: fetchResponse_def assms(5))
  let ?inserted = "cache\<lparr>Responses :=
                GoMap (AList.update hash \<lparr>Response = payload, Timestamp = now\<rparr> kvs)\<rparr>"
  obtain cache' where e: "evictIfNeeded c ?inserted = (None, cache')"
    using evictIfNeeded_nil[of c ?inserted] by blast
  then have s: "snd (evictIfNeeded c ?inserted) = cache'" by simp
  from assms(4,6) have g: "map_get (GoMap kvs) hash = None" by simp
  from e assms(6) have e': "evictIfNeeded c (cache\<lparr>Responses :=
                GoMap (AList.update hash \<lparr>Response = payload, Timestamp = now\<rparr> kvs)\<rparr>) = (None, cache')"
    by simp
  show ?thesis
    unfolding s
    by (simp add: getResponse_def assms(1,2,3,6) g f e' saveCache_ok[OF assms(7)])
qed

lemma getResponse_inserted:
  assumes "cacheEnabled c"
    and "getResponse lib c now req w = (Returns (response, False, None), w')"
  shows "\<exists>cache hash.
           loadCache w = Inr cache
         \<and> cache_file w' = Parses (snd (evictIfNeeded c (cache\<lparr>Responses :=
             GoMap (AList.update hash \<lparr>Response = response, Timestamp = now\<rparr>
                      (map_range (Responses cache)))\<rparr>)))"
  using assms
  apply (auto simp: getResponse_def Let_def saveCache_def
      split: sum.splits option.splits outcome.splits prod.splits if_splits
      dest!: map_set_Some)
  apply (metis snd_conv)
  done

lemma getResponse_insert_step:
  assumes "cacheEnabled c" and "file_keys_distinct w"
    and "getResponse lib c now req w = (Returns (response, False, None), w')"
  shows "\<exists>cache'. cache_file w' = Parses cache'
         \<and> map_keys_distinct (Responses cache')
         \<and> (total_size cache' \<le> cacheSizeLimit c \<or> map_range (Responses cache') = [])"
proof -
  from getResponse_inserted[OF assms(1,3)] obtain cache hash where
    l: "loadCache w = Inr cache" and
    f: "cache_file w' = Parses (snd (evictIfNeeded c (cache\<lparr>Responses :=
             GoMap (AList.update hash \<lparr>Response = response, Timestamp = now\<rparr>
                      (map_range (Responses cache)))\<rparr>)))"
    by blast
  let ?inserted = "cache\<lparr>Responses :=
             GoMap (AList.update hash \<lparr>Response = response, Timestamp = now\<rparr>
                      (map_range (Responses cache)))\<rparr>"
  from loadCache_keys_distinct[OF assms(2) l]
  have d: "map_keys_distinct (Responses ?inserted)"
    by (simp add: map_keys_distinct_def distinct_update)
  from f evictIfNeeded_keys_distinct[OF d, of c] evictIfNeeded_bound[OF d, of c]
  show ?thesis by blast
qed

lemma insertions_bound_aux:
  assumes "cacheEnabled c"
  shows "file_keys_distinct w \<Longrightarrow> getResponses lib c calls w = (results, w') \<Longrightarrow>
         \<forall>r \<in> set results. \<exists>response. r = Returns (response, False, None) \<Longrightarrow>
         calls \<noteq> [] \<Longrightarrow>
         \<exists>cache'. cache_file w' = Parses cache'
           \<and> (total_size cache' \<le> cacheSizeLimit c \<or> map_range (Responses cache') = [])"
proof (induction calls arbitrary: w results)
  case Nil
  then show ?case by simp
next
  case (Cons call calls)
  obtain now req where call: "call = (now, req)" by (cases call)
  obtain out w1 where g: "getResponse lib c now req w = (out, w1)"
    by (cases "getResponse lib c now req w")
  show ?case
  proof (cases out)
    case (Panic p)
    with Cons.prems(2,3) call g show ?thesis by auto
  next
    case (Returns r)
    obtain rs w2 where rest: "getResponses lib c calls w1 = (rs, w2)"
      by (cases "getResponses lib c calls w1")
    from Cons.prems(2) call g Returns rest
    have res: "results = Returns r # rs" and w': "w' = w2" by simp_all
    from Cons.prems(3) res obtain response where r: "r = (response, False, None)" by auto
    from g Returns r have step: "getResponse lib c now req w = (Returns (response, False, None), w1)"
      by simp
    from getResponse_insert_step[OF assms Cons.prems(1) step] obtain cache1 where
      c1: "cache_file w1 = Parses cache1" "map_keys_distinct (Responses cache1)"
          "total_size cache1 \<le> cacheSizeLimit c \<or> map_range (Responses cache1) = []"
      by blast
    show ?thesis
    proof (cases "calls = []")
      case True
      with rest w' c1 show ?thesis by auto
    next
      case False
      from c1 have fd: "file_keys_distinct w1" by (simp add: file_keys_distinct_def)
      from Cons.prems(3) res have all: "\<forall>r \<in> set rs. \<exists>response. r = Returns (response, False, None)"
        by simp
      from rest w' have rest': "getResponses lib c calls w1 = (rs, w')" by simp
      from Cons.IH[OF fd rest' all False] show ?thesis .
    qed
  qed
qed

section \<open>Properties\<close>

subsection \<open>A single entry larger than the limit\<close>

text \<open>
  C1, as amended. When the cache holds exactly one entry and the payload of that entry alone
  exceeds the limit, \<^verbatim>\<open>evictIfNeeded\<close> removes the entry: the loop runs while the size
  is over the limit and \<^verbatim>\<open>len(entries) > 0\<close>, so its first round takes the only
  entry, and the cache it leaves is empty.
\<close>

theorem evictIfNeeded_single_oversized_entry:
  assumes "map_range (Responses cache) = [kv]" and "cacheSizeLimit c < entry_size kv"
  shows "evictIfNeeded c cache = (None, cache\<lparr>Responses := GoMap []\<rparr>)"
proof -
  from assms(1) have m: "Responses cache = GoMap [kv]"
    by (cases "Responses cache") simp_all
  obtain hash entry where kv: "kv = (hash, entry)" by (cases kv)
  from assms(2) show ?thesis
    by (simp add: evictIfNeeded_def m kv entry_size_def collect_entries_def
        map_index_def map_get_def)
qed

theorem evictIfNeeded_single_oversized_entry_witness:
  "map_range (Responses one_entry_cache) = [(''6b'', \<lparr>Response = ''abc'', Timestamp = 5\<rparr>)]
   \<and> cacheSizeLimit (echo_client 2) < entry_size (''6b'', \<lparr>Response = ''abc'', Timestamp = 5\<rparr>)
   \<and> evictIfNeeded (echo_client 2) one_entry_cache = (None, \<lparr>Responses = GoMap []\<rparr>)"
proof -
  have h1: "map_range (Responses one_entry_cache) =
              [(''6b'', \<lparr>Response = ''abc'', Timestamp = 5\<rparr>)]"
    by (simp add: one_entry_cache_def)
  have h2: "cacheSizeLimit (echo_client 2) <
              entry_size (''6b'', \<lparr>Response = ''abc'', Timestamp = 5\<rparr>)"
    by (simp add: echo_client_eq entry_size_def)
  from evictIfNeeded_single_oversized_entry[OF h1 h2] h1 h2 show ?thesis
    by (simp add: one_entry_cache_def)
qed

text \<open>
  The entry is not retained: with a limit of 2 bytes, the cache whose only entry has the
  payload \<open>abc\<close> is empty after the eviction.
\<close>

theorem single_oversized_entry_evicted:
  "length (map_range (Responses one_entry_cache)) = 1
   \<and> cacheSizeLimit (echo_client 2) < total_size one_entry_cache
   \<and> map_get (Responses one_entry_cache) ''6b'' = Some \<lparr>Response = ''abc'', Timestamp = 5\<rparr>
   \<and> map_get (Responses (snd (evictIfNeeded (echo_client 2) one_entry_cache))) ''6b'' = None
   \<and> map_range (Responses (snd (evictIfNeeded (echo_client 2) one_entry_cache))) = []"
  by (simp add: one_entry_cache_def echo_client_eq total_size_def payload_bytes_def
      entry_size_def evictIfNeeded_def collect_entries_def map_index_def map_get_def)

subsection \<open>The eviction policy\<close>

text \<open>
  C2. For every cache (a Go map: its keys are distinct) and every limit,
  \<^verbatim>\<open>evictIfNeeded\<close> computes the total size as the sum of the payload lengths of all
  entries. If the total is at most the limit, the cache is
  returned as it is. Otherwise there is a number \<open>k\<close> such that the entries removed are
  exactly the first \<open>k\<close> of the ranking by \<open>lastAccessed\<close>, oldest first (the ranking is
  a permutation of the entries, sorted by instant); before each of the \<open>k\<close> removals the
  total was still over the limit; and afterwards the total is at most the limit, or no
  entry remains.
\<close>

theorem evictIfNeeded_policy:
  assumes "map_keys_distinct (Responses cache)"
  shows "sum_sizes 0 (map_range (Responses cache)) = total_size cache
       \<and> mset (ranked cache) = mset (map_range (Responses cache))
       \<and> sorted (map (\<lambda>kv. Timestamp (snd kv)) (ranked cache))
       \<and> (total_size cache \<le> cacheSizeLimit c \<longrightarrow> evictIfNeeded c cache = (None, cache))
       \<and> (cacheSizeLimit c < total_size cache \<longrightarrow>
            (\<exists>k \<le> length (ranked cache).
               map_range (Responses (snd (evictIfNeeded c cache))) =
                 filter (\<lambda>kv. kv \<notin> set (take k (ranked cache))) (map_range (Responses cache))
             \<and> mset (map_range (Responses (snd (evictIfNeeded c cache)))) =
                 mset (drop k (ranked cache))
             \<and> (\<forall>j < k. cacheSizeLimit c < total_size cache - payload_bytes (take j (ranked cache)))
             \<and> total_size (snd (evictIfNeeded c cache)) =
                 total_size cache - payload_bytes (take k (ranked cache))
             \<and> (total_size (snd (evictIfNeeded c cache)) \<le> cacheSizeLimit c
                  \<or> k = length (ranked cache))))"
proof -
  let ?limit = "cacheSizeLimit c"
  let ?k = "evict_k ?limit cache"
  let ?after = "snd (evictIfNeeded c cache)"
  have sum: "sum_sizes 0 (map_range (Responses cache)) = total_size cache"
    by (simp add: sum_sizes_eq total_size_def)
  have under: "total_size cache \<le> ?limit \<longrightarrow> evictIfNeeded c cache = (None, cache)"
    by (simp add: evictIfNeeded_eq[OF assms])
  have over: "\<exists>k \<le> length (ranked cache).
               map_range (Responses ?after) =
                 filter (\<lambda>kv. kv \<notin> set (take k (ranked cache))) (map_range (Responses cache))
             \<and> mset (map_range (Responses ?after)) = mset (drop k (ranked cache))
             \<and> (\<forall>j < k. ?limit < total_size cache - payload_bytes (take j (ranked cache)))
             \<and> total_size ?after = total_size cache - payload_bytes (take k (ranked cache))
             \<and> (total_size ?after \<le> ?limit \<or> k = length (ranked cache))"
    if gt: "?limit < total_size cache"
  proof -
    have after: "?after = delete_all cache (take ?k (map fst (ranked cache)))"
      using gt by (simp add: evictIfNeeded_eq[OF assms])
    have bytes: "payload_bytes (take j (ranked cache)) =
                   sum_list (take j (map entry_size (ranked cache)))" for j
      by (simp add: payload_bytes_def take_map)
    have le: "?k \<le> length (ranked cache)"
      using evict_count_le[where limit = ?limit and bytes = "total_size cache"
                              and ss = "map entry_size (ranked cache)"]
      by (simp add: evict_k_def)
    have kept: "map_range (Responses ?after) =
                  filter (\<lambda>kv. kv \<notin> set (take ?k (ranked cache))) (map_range (Responses cache))"
      by (simp only: after entries_after_delete_all[OF assms])
    have ms: "mset (map_range (Responses ?after)) = mset (drop ?k (ranked cache))"
      by (simp only: kept mset_kept[OF assms])
    have needed: "\<forall>j < ?k. ?limit < total_size cache - payload_bytes (take j (ranked cache))"
      using evict_count_needed[where limit = ?limit and bytes = "total_size cache"
                                  and ss = "map entry_size (ranked cache)"]
      by (simp add: evict_k_def bytes)
    have "total_size ?after = payload_bytes (drop ?k (ranked cache))"
      unfolding total_size_def by (rule payload_bytes_mset) (rule ms)
    then have size: "total_size ?after = total_size cache - payload_bytes (take ?k (ranked cache))"
      using payload_bytes_take_drop[of "ranked cache" ?k] total_size_ranked[of cache] by simp
    have stop: "total_size ?after \<le> ?limit \<or> ?k = length (ranked cache)"
      using evict_count_stops[where limit = ?limit and bytes = "total_size cache"
                                 and ss = "map entry_size (ranked cache)"]
      by (simp add: size bytes evict_k_def)
    from le kept ms needed size stop show ?thesis by blast
  qed
  from sum mset_ranked sorted_ranked under over show ?thesis by blast
qed

theorem evictIfNeeded_policy_witness:
  "map_keys_distinct (Responses abc_cache)
   \<and> sum_sizes 0 (map_range (Responses abc_cache)) = 120
   \<and> total_size abc_cache = 120
   \<and> cacheSizeLimit (echo_client 100) = 100
   \<and> ranked abc_cache =
        [(''a'', \<lparr>Response = replicate 40 (CHR ''A''), Timestamp = 1\<rparr>),
         (''b'', \<lparr>Response = replicate 40 (CHR ''B''), Timestamp = 2\<rparr>),
         (''c'', \<lparr>Response = replicate 40 (CHR ''C''), Timestamp = 3\<rparr>)]
   \<and> map_range (Responses (snd (evictIfNeeded (echo_client 100) abc_cache))) =
        [(''c'', \<lparr>Response = replicate 40 (CHR ''C''), Timestamp = 3\<rparr>),
         (''b'', \<lparr>Response = replicate 40 (CHR ''B''), Timestamp = 2\<rparr>)]
   \<and> total_size (snd (evictIfNeeded (echo_client 100) abc_cache)) = 80"
proof -
  have d: "map_keys_distinct (Responses abc_cache)"
    by (simp add: map_keys_distinct_def abc_cache_def)
  have t: "total_size abc_cache = 120"
    by (simp add: total_size_def payload_bytes_def entry_size_def abc_cache_def)
  have r: "ranked abc_cache =
        [(''a'', \<lparr>Response = replicate 40 (CHR ''A''), Timestamp = 1\<rparr>),
         (''b'', \<lparr>Response = replicate 40 (CHR ''B''), Timestamp = 2\<rparr>),
         (''c'', \<lparr>Response = replicate 40 (CHR ''C''), Timestamp = 3\<rparr>)]"
    by (simp add: ranked_def abc_cache_def)
  have e: "map_range (Responses (snd (evictIfNeeded (echo_client 100) abc_cache))) =
        [(''c'', \<lparr>Response = replicate 40 (CHR ''C''), Timestamp = 3\<rparr>),
         (''b'', \<lparr>Response = replicate 40 (CHR ''B''), Timestamp = 2\<rparr>)]"
    by (simp add: evictIfNeeded_def collect_entries_def abc_cache_def echo_client_eq
        map_index_def map_get_def AList.delete_eq)
  from evictIfNeeded_policy[OF d, of "echo_client 100"] t
  have s: "sum_sizes 0 (map_range (Responses abc_cache)) = 120" by simp
  have a: "total_size (snd (evictIfNeeded (echo_client 100) abc_cache)) = 80"
    by (simp add: total_size_def payload_bytes_def entry_size_def e)
  from d s t r e a show ?thesis by (simp add: echo_client_eq)
qed

subsection \<open>The size bound after insertions\<close>

text \<open>
  C3. The limit is a number of bytes, so it is not negative. Take any sequence of calls of
  \<^verbatim>\<open>getResponse\<close> with caching enabled that each insert (each returns a fresh
  response, \<open>cached = false\<close>, without error), from a cache file with distinct keys;
  the sequence is not empty, or it starts without a cache file. Afterwards the file loads
  to a cache that satisfies the size bound of the specification: its total payload size is
  at most the limit, or exactly one entry remains whose payload alone exceeds the limit.
  It is the first of the two that holds: the total is at most the limit.
\<close>

theorem insertions_size_bound:
  assumes "cacheEnabled c" and "0 \<le> cacheSizeLimit c" and "file_keys_distinct w"
    and "getResponses lib c calls w = (results, w')"
    and "\<forall>r \<in> set results. \<exists>response. r = Returns (response, False, None)"
    and "calls \<noteq> [] \<or> cache_file w = NotExist"
  shows "\<exists>cache'. loadCache w' = Inr cache'
         \<and> size_bound_as_specified (cacheSizeLimit c) cache'
         \<and> total_size cache' \<le> cacheSizeLimit c"
proof -
  have "\<exists>cache'. loadCache w' = Inr cache'
         \<and> (total_size cache' \<le> cacheSizeLimit c \<or> map_range (Responses cache') = [])"
  proof (cases "calls = []")
    case True
    with assms(4,6) show ?thesis by (simp add: loadCache_def)
  next
    case False
    from insertions_bound_aux[OF assms(1,3,4,5) False] show ?thesis
      by (auto simp: loadCache_def)
  qed
  then obtain cache' where l: "loadCache w' = Inr cache'"
    and b: "total_size cache' \<le> cacheSizeLimit c \<or> map_range (Responses cache') = []"
    by blast
  from b assms(2) have t: "total_size cache' \<le> cacheSizeLimit c"
    by (auto simp: total_size_no_entries)
  then have "size_bound_as_specified (cacheSizeLimit c) cache'"
    by (simp add: size_bound_as_specified_def)
  with l t show ?thesis by blast
qed

theorem insertions_size_bound_witness:
  "cacheEnabled (echo_client 10)
   \<and> 0 \<le> cacheSizeLimit (echo_client 10)
   \<and> file_keys_distinct cold_world
   \<and> getResponses plain_lib (echo_client 10) [(1, ''aaaa''), (2, ''bbbb''), (3, ''cccc'')]
        cold_world =
       ([Returns (''aaaa'', False, None), Returns (''bbbb'', False, None),
         Returns (''cccc'', False, None)],
        cold_world\<lparr>cache_file := Parses \<lparr>Responses = GoMap
           [(''62626262'', \<lparr>Response = ''bbbb'', Timestamp = 2\<rparr>),
            (''63636363'', \<lparr>Response = ''cccc'', Timestamp = 3\<rparr>)]\<rparr>,
          save_calls := 3\<rparr>)
   \<and> (\<exists>cache'. loadCache (cold_world\<lparr>cache_file := Parses \<lparr>Responses = GoMap
           [(''62626262'', \<lparr>Response = ''bbbb'', Timestamp = 2\<rparr>),
            (''63636363'', \<lparr>Response = ''cccc'', Timestamp = 3\<rparr>)]\<rparr>,
          save_calls := 3\<rparr>) = Inr cache'
        \<and> size_bound_as_specified 10 cache' \<and> total_size cache' \<le> 10)"
proof -
  let ?w' = "cold_world\<lparr>cache_file := Parses \<lparr>Responses = GoMap
           [(''62626262'', \<lparr>Response = ''bbbb'', Timestamp = 2\<rparr>),
            (''63636363'', \<lparr>Response = ''cccc'', Timestamp = 3\<rparr>)]\<rparr>,
          save_calls := 3\<rparr>"
  let ?results = "[Returns (''aaaa'', False, None), Returns (''bbbb'', False, None),
         Returns (''cccc'', False, None)]"
  have en: "cacheEnabled (echo_client 10)" by (simp add: echo_client_eq)
  have nn: "0 \<le> cacheSizeLimit (echo_client 10)" by (simp add: echo_client_eq)
  have fd: "file_keys_distinct cold_world" by (simp add: file_keys_distinct_def cold_world_def)
  have run: "getResponses plain_lib (echo_client 10) [(1, ''aaaa''), (2, ''bbbb''), (3, ''cccc'')]
        cold_world = (?results, ?w')"
    by (simp add: getResponse_def loadCache_def generateHash_def fetchResponse_def
        saveCache_def evictIfNeeded_def collect_entries_def map_get_def map_index_def
        echo_client_eq plain_lib_def cold_world_def hextable_def Let_def)
  have ins: "\<forall>r \<in> set ?results. \<exists>response. r = Returns (response, False, None)"
    by simp
  have lim: "cacheSizeLimit (echo_client 10) = 10" by (simp add: echo_client_eq)
  from insertions_size_bound[OF en nn fd run ins] have
    "\<exists>cache'. loadCache ?w' = Inr cache'
        \<and> size_bound_as_specified 10 cache' \<and> total_size cache' \<le> 10"
    by (simp only: lim) simp
  with en nn fd run show ?thesis by blast
qed

text \<open>
  The hypothesis on the limit cannot be dropped: with the limit \<open>-1\<close>, which the flag
  \<^verbatim>\<open>-cache-size-limit\<close> accepts, one insertion from a cold start leaves the empty
  cache, whose total 0 exceeds the limit while no entry remains.
\<close>

lemma negative_limit_leaves_empty_cache:
  "getResponses plain_lib (echo_client (- 1)) [(1, ''abc'')] cold_world =
     ([Returns (''abc'', False, None)],
      cold_world\<lparr>cache_file := Parses \<lparr>Responses = GoMap []\<rparr>, save_calls := 1\<rparr>)
   \<and> \<not> size_bound_as_specified (cacheSizeLimit (echo_client (- 1))) \<lparr>Responses = GoMap []\<rparr>"
  by (simp add: getResponse_def loadCache_def generateHash_def fetchResponse_def
        saveCache_def evictIfNeeded_def collect_entries_def map_get_def map_index_def
        echo_client_eq plain_lib_def cold_world_def hextable_def Let_def
        size_bound_as_specified_def total_size_def payload_bytes_def)

subsection \<open>Miss, hit, hit\<close>

text \<open>
  C4. With caching enabled, let the remote API answer the request with a payload, let the
  request have a digest that the loaded cache does not hold, and let every save succeed.
  Let the payload be small enough not to be evicted: it fits the limit together with the
  entries present, or it fits the limit alone and every entry present is older than the
  first call. Then three calls with this request in sequence return the payload with
  \<open>cached = false\<close>, then \<open>true\<close>, then \<open>true\<close>, each without error.
\<close>

theorem same_request_three_times:
  assumes "cacheEnabled c"
    and "CreateChatCompletion c req = Inr (payload # others)"
    and "generateHash lib req = Inr hash"
    and "saves_succeed w"
    and "loadCache w = Inr cache" and "Responses cache = GoMap kvs"
    and "distinct (map fst kvs)" and "map_of kvs hash = None"
    and "payload_bytes kvs + int (length payload) \<le> cacheSizeLimit c
         \<or> (int (length payload) \<le> cacheSizeLimit c
              \<and> (\<forall>kv \<in> set kvs. Timestamp (snd kv) < t1))"
  shows "fst (getResponses lib c [(t1, req), (t2, req), (t3, req)] w) =
           [Returns (payload, False, None), Returns (payload, True, None),
            Returns (payload, True, None)]"
proof -
  let ?new = "\<lparr>Response = payload, Timestamp = t1\<rparr>"
  let ?c1 = "snd (evictIfNeeded c (cache\<lparr>Responses := GoMap (AList.update hash ?new kvs)\<rparr>))"
  let ?w1 = "w\<lparr>save_calls := Suc (save_calls w), cache_file := Parses ?c1\<rparr>"
  let ?c2 = "?c1\<lparr>Responses := GoMap (AList.update hash (?new\<lparr>Timestamp := t2\<rparr>)
                                   (map_range (Responses ?c1)))\<rparr>"
  let ?w2 = "?w1\<lparr>save_calls := Suc (save_calls ?w1), cache_file := Parses ?c2\<rparr>"
  from assms(6,8) have miss: "map_get (Responses cache) hash = None"
    by (simp add: map_get_def)
  have first: "getResponse lib c t1 req w = (Returns (payload, False, None), ?w1)"
    by (rule getResponse_miss_eq[OF assms(1) assms(5) assms(3) miss assms(2) assms(6) assms(4)])
  have kept: "map_get (Responses ?c1) hash = Some ?new"
    by (rule inserted_entry_survives[OF assms(7) assms(8) assms(9)])
  have s1: "saves_succeed ?w1" using assms(4) by simp
  have l1: "loadCache ?w1 = Inr ?c1" by simp
  have second: "getResponse lib c t2 req ?w1 = (Returns (payload, True, None), ?w2)"
    using getResponse_hit_eq[OF assms(1) l1 assms(3) kept s1, of t2] by simp
  have kept2: "map_get (Responses ?c2) hash = Some (?new\<lparr>Timestamp := t2\<rparr>)"
    by (simp add: map_get_def update_conv')
  have s2: "saves_succeed ?w2" using assms(4) by simp
  have l2: "loadCache ?w2 = Inr ?c2" by simp
  have third: "fst (getResponse lib c t3 req ?w2) = Returns (payload, True, None)"
    using getResponse_hit_eq[OF assms(1) l2 assms(3) kept2 s2, of t3] by simp
  obtain w3 where third': "getResponse lib c t3 req ?w2 = (Returns (payload, True, None), w3)"
    using third by (cases "getResponse lib c t3 req ?w2") simp
  show ?thesis
    by (simp only: getResponses.simps first second third' prod.case outcome.case fst_conv)
qed

theorem same_request_three_times_witness:
  "cacheEnabled (echo_client 10)
   \<and> CreateChatCompletion (echo_client 10) ''hello'' = Inr [''hello'']
   \<and> generateHash plain_lib ''hello'' = Inr ''68656c6c6f''
   \<and> saves_succeed warm_world
   \<and> loadCache warm_world =
       Inr \<lparr>Responses = GoMap [(''61'', \<lparr>Response = ''aaaaaaaa'', Timestamp = 1\<rparr>)]\<rparr>
   \<and> int (length ''hello'') \<le> cacheSizeLimit (echo_client 10)
   \<and> fst (getResponses plain_lib (echo_client 10) [(2, ''hello''), (3, ''hello''), (4, ''hello'')]
          warm_world) =
       [Returns (''hello'', False, None), Returns (''hello'', True, None),
        Returns (''hello'', True, None)]"
proof -
  let ?kvs = "[(''61'', \<lparr>Response = ''aaaaaaaa'', Timestamp = 1\<rparr>)]"
  have en: "cacheEnabled (echo_client 10)" by (simp add: echo_client_eq)
  have api: "CreateChatCompletion (echo_client 10) ''hello'' = Inr (''hello'' # [])"
    by (simp add: echo_client_eq)
  have h: "generateHash plain_lib ''hello'' = Inr ''68656c6c6f''"
    by (simp add: generateHash_def plain_lib_def hextable_def)
  have ok: "saves_succeed warm_world"
    by (simp add: saves_succeed_def warm_world_def cold_world_def)
  have l: "loadCache warm_world = Inr \<lparr>Responses = GoMap ?kvs\<rparr>"
    by (simp add: loadCache_def warm_world_def)
  have m: "Responses \<lparr>Responses = GoMap ?kvs\<rparr> = GoMap ?kvs" by simp
  have d: "distinct (map fst ?kvs)" by simp
  have a: "map_of ?kvs ''68656c6c6f'' = None" by simp
  have room: "payload_bytes ?kvs + int (length ''hello'') \<le> cacheSizeLimit (echo_client 10)
         \<or> (int (length ''hello'') \<le> cacheSizeLimit (echo_client 10)
              \<and> (\<forall>kv \<in> set ?kvs. Timestamp (snd kv) < 2))"
    by (simp add: echo_client_eq)
  from same_request_three_times[OF en api h ok l m d a room, of 3 4] en api h ok l
  show ?thesis by (simp add: echo_client_eq)
qed

subsection \<open>The hit path\<close>

text \<open>
  C6. With caching enabled, when the digest of the request is present in the loaded cache
  and the save succeeds, \<^verbatim>\<open>getResponse\<close> returns the stored payload with
  \<open>cached = true\<close> and no error; it has saved once, and the file then holds the cache in
  which the entry of this digest carries the current time and every other key is as before.
\<close>

theorem getResponse_hit:
  assumes "cacheEnabled c" and "loadCache w = Inr cache" and "generateHash lib req = Inr hash"
    and "map_get (Responses cache) hash = Some entry" and "saves_succeed w"
  shows "\<exists>w' cache'.
           getResponse lib c now req w = (Returns (Response entry, True, None), w')
         \<and> save_calls w' = Suc (save_calls w)
         \<and> cache_file w' = Parses cache'
         \<and> loadCache w' = Inr cache'
         \<and> map_get (Responses cache') hash = Some (entry\<lparr>Timestamp := now\<rparr>)
         \<and> (\<forall>k. k \<noteq> hash \<longrightarrow> map_get (Responses cache') k = map_get (Responses cache) k)"
proof -
  let ?cache' = "cache\<lparr>Responses :=
                GoMap (AList.update hash (entry\<lparr>Timestamp := now\<rparr>)
                         (map_range (Responses cache)))\<rparr>"
  let ?w' = "w\<lparr>save_calls := Suc (save_calls w), cache_file := Parses ?cache'\<rparr>"
  have "getResponse lib c now req w = (Returns (Response entry, True, None), ?w')"
    using assms by (rule getResponse_hit_eq)
  moreover have "save_calls ?w' = Suc (save_calls w)" by simp
  moreover have "cache_file ?w' = Parses ?cache'" by simp
  moreover have "loadCache ?w' = Inr ?cache'" by (simp add: loadCache_def)
  moreover have "map_get (Responses ?cache') hash = Some (entry\<lparr>Timestamp := now\<rparr>)"
    by (simp add: map_get_def update_conv')
  moreover have "\<forall>k. k \<noteq> hash \<longrightarrow> map_get (Responses ?cache') k = map_get (Responses cache) k"
    by (simp add: map_get_def update_conv')
  ultimately show ?thesis by blast
qed

theorem getResponse_hit_witness:
  "cacheEnabled (echo_client 10)
   \<and> loadCache warm_world =
       Inr \<lparr>Responses = GoMap [(''61'', \<lparr>Response = ''aaaaaaaa'', Timestamp = 1\<rparr>)]\<rparr>
   \<and> generateHash plain_lib ''a'' = Inr ''61''
   \<and> saves_succeed warm_world
   \<and> getResponse plain_lib (echo_client 10) 7 ''a'' warm_world =
       (Returns (''aaaaaaaa'', True, None),
        warm_world\<lparr>cache_file := Parses
          \<lparr>Responses = GoMap [(''61'', \<lparr>Response = ''aaaaaaaa'', Timestamp = 7\<rparr>)]\<rparr>,
          save_calls := 1\<rparr>)"
proof -
  let ?cache = "\<lparr>Responses = GoMap [(''61'', \<lparr>Response = ''aaaaaaaa'', Timestamp = 1\<rparr>)]\<rparr>"
  have en: "cacheEnabled (echo_client 10)" by (simp add: echo_client_eq)
  have l: "loadCache warm_world = Inr ?cache" by (simp add: loadCache_def warm_world_def)
  have h: "generateHash plain_lib ''a'' = Inr ''61''"
    by (simp add: generateHash_def plain_lib_def hextable_def)
  have g: "map_get (Responses ?cache) ''61'' = Some \<lparr>Response = ''aaaaaaaa'', Timestamp = 1\<rparr>"
    by (simp add: map_get_def)
  have ok: "saves_succeed warm_world"
    by (simp add: saves_succeed_def warm_world_def cold_world_def)
  from getResponse_hit[OF en l h g ok, of 7] obtain w' where
    r: "getResponse plain_lib (echo_client 10) 7 ''a'' warm_world =
         (Returns (''aaaaaaaa'', True, None), w')" by auto
  have "getResponse plain_lib (echo_client 10) 7 ''a'' warm_world =
       (Returns (''aaaaaaaa'', True, None),
        warm_world\<lparr>cache_file := Parses
          \<lparr>Responses = GoMap [(''61'', \<lparr>Response = ''aaaaaaaa'', Timestamp = 7\<rparr>)]\<rparr>,
          save_calls := 1\<rparr>)"
    using r
    by (simp add: getResponse_def loadCache_def generateHash_def saveCache_def map_get_def
        echo_client_eq plain_lib_def warm_world_def cold_world_def hextable_def Let_def)
  with en l h ok show ?thesis by simp
qed

text \<open>When the save fails on this path, its error is what \<^verbatim>\<open>getResponse\<close> returns.\<close>

lemma getResponse_hit_save_fails:
  assumes "cacheEnabled c" and "loadCache w = Inr cache" and "generateHash lib req = Inr hash"
    and "map_get (Responses cache) hash = Some entry" and "\<not> saves_succeed w"
  shows "\<exists>err w'. getResponse lib c now req w = (Returns ([], False, Some err), w')"
proof -
  from assms(4) have m: "Responses cache = GoMap (map_range (Responses cache))"
    by (rule map_get_Some_GoMap)
  have assign: "map_set (Responses cache) hash (entry\<lparr>Timestamp := now\<rparr>) =
               Some (GoMap (AList.update hash (entry\<lparr>Timestamp := now\<rparr>)
                       (map_range (Responses cache))))"
    by (subst m) simp
  from assms(5) show ?thesis
    by (auto simp: getResponse_def assms(1,2,3,4) assign Let_def saveCache_def
        saves_succeed_def)
qed

subsection \<open>A failing remote call\<close>

text \<open>
  C7. With caching enabled, when the digest of the request is absent from the loaded cache
  and the remote API fails, \<^verbatim>\<open>getResponse\<close> returns that error and leaves the world
  as it was: the cache file is unchanged, it loads to the same cache as before the call,
  and \<^verbatim>\<open>saveCache\<close> has not been called.
\<close>

theorem getResponse_remote_failure:
  assumes "cacheEnabled c" and "loadCache w = Inr cache" and "generateHash lib req = Inr hash"
    and "map_get (Responses cache) hash = None"
    and "CreateChatCompletion c req = Inl err"
  shows "getResponse lib c now req w = (Returns ([], False, Some (ApiError err)), w)
       \<and> cache_file (snd (getResponse lib c now req w)) = cache_file w
       \<and> loadCache (snd (getResponse lib c now req w)) = Inr cache
       \<and> save_calls (snd (getResponse lib c now req w)) = save_calls w"
proof -
  have f: "fetchResponse c req = Returns ([], False, Some (ApiError err))"
    by (simp add: fetchResponse_def assms(5))
  have "getResponse lib c now req w = (Returns ([], False, Some (ApiError err)), w)"
    by (simp add: getResponse_def assms(1,2,3,4) f)
  then show ?thesis by (simp add: assms(2))
qed

theorem getResponse_remote_failure_witness:
  "cacheEnabled (echo_client 10)
   \<and> loadCache warm_world =
       Inr \<lparr>Responses = GoMap [(''61'', \<lparr>Response = ''aaaaaaaa'', Timestamp = 1\<rparr>)]\<rparr>
   \<and> generateHash plain_lib [] = Inr []
   \<and> CreateChatCompletion (echo_client 10) [] = Inl ''empty request''
   \<and> getResponse plain_lib (echo_client 10) 7 [] warm_world =
       (Returns ([], False, Some (ApiError ''empty request'')), warm_world)"
proof -
  let ?cache = "\<lparr>Responses = GoMap [(''61'', \<lparr>Response = ''aaaaaaaa'', Timestamp = 1\<rparr>)]\<rparr>"
  have en: "cacheEnabled (echo_client 10)" by (simp add: echo_client_eq)
  have l: "loadCache warm_world = Inr ?cache" by (simp add: loadCache_def warm_world_def)
  have h: "generateHash plain_lib [] = Inr []"
    by (simp add: generateHash_def plain_lib_def)
  have g: "map_get (Responses ?cache) [] = None" by (simp add: map_get_def)
  have api: "CreateChatCompletion (echo_client 10) [] = Inl ''empty request''"
    by (simp add: echo_client_eq)
  from getResponse_remote_failure[OF en l h g api, of 7] en l h api show ?thesis by simp
qed

subsection \<open>Cold start\<close>

text \<open>
  C8. When the cache file does not exist, \<^verbatim>\<open>loadCache\<close> returns an empty cache and
  no error; and after a \<^verbatim>\<open>clearCache\<close> that returns no error, \<^verbatim>\<open>loadCache\<close>
  returns an empty cache as well.
\<close>

theorem cold_start:
  "(cache_file w = NotExist \<longrightarrow> loadCache w = Inr \<lparr>Responses = GoMap []\<rparr>)
   \<and> (fst (clearCache w) = None \<longrightarrow>
        loadCache (snd (clearCache w)) = Inr \<lparr>Responses = GoMap []\<rparr>)"
  by (simp add: loadCache_def clearCache_def)

theorem cold_start_witness:
  "cache_file cold_world = NotExist
   \<and> loadCache cold_world = Inr \<lparr>Responses = GoMap []\<rparr>
   \<and> fst (clearCache warm_world) = None
   \<and> loadCache (snd (clearCache warm_world)) = Inr \<lparr>Responses = GoMap []\<rparr>"
proof -
  have a: "cache_file cold_world = NotExist" by (simp add: cold_world_def)
  have b: "fst (clearCache warm_world) = None"
    by (simp add: clearCache_def warm_world_def cold_world_def)
  from cold_start[of cold_world] cold_start[of warm_world] a b show ?thesis by simp
qed

subsection \<open>A cache file without a map\<close>

text \<open>
  \<^verbatim>\<open>loadCache\<close> allocates the map only on the path of the missing file. On the path
  that parses the file the map is what the decoder left, and a miss then assigns to it.
\<close>

lemma getResponse_nil_map:
  assumes "cacheEnabled c" and "loadCache w = Inr cache" and "Responses cache = NilMap"
    and "generateHash lib req = Inr hash"
    and "CreateChatCompletion c req = Inr (payload # others)"
  shows "getResponse lib c now req w = (Panic AssignmentToNilMap, w)"
  by (simp add: getResponse_def assms fetchResponse_def map_get_def)

lemma getResponse_no_file_no_panic:
  assumes "cacheEnabled c" and "cache_file w = NotExist"
    and "generateHash lib req = Inr hash"
    and "CreateChatCompletion c req = Inr (payload # others)"
    and "saves_succeed w"
  shows "fst (getResponse lib c now req w) = Returns (payload, False, None)"
proof -
  from assms(2) have l: "loadCache w = Inr \<lparr>Responses = GoMap []\<rparr>"
    by (simp add: loadCache_def)
  have g: "map_get (Responses \<lparr>Responses = GoMap []\<rparr>) hash = None"
    by (simp add: map_get_def)
  have m: "Responses \<lparr>Responses = GoMap []\<rparr> = GoMap []" by simp
  from getResponse_miss_eq[OF assms(1) l assms(3) g assms(4) m assms(5), of now]
  show ?thesis by (simp only: fst_conv)
qed

text \<open>
  C9. The cache file \<^verbatim>\<open>{}\<close> parses: \<^verbatim>\<open>loadCache\<close> returns a cache without error,
  and its map is \<^verbatim>\<open>nil\<close>. The miss that follows panics at
  \<^verbatim>\<open>cache.Responses[hash] = CacheEntry{...}\<close> with an assignment to an entry of a
  \<^verbatim>\<open>nil\<close> map; nothing is saved.
\<close>

theorem nil_map_insertion_panics:
  "loadCache empty_object_world = Inr \<lparr>Responses = NilMap\<rparr>
   \<and> getResponse plain_lib (echo_client 100) 1 ''hello'' empty_object_world =
       (Panic AssignmentToNilMap, empty_object_world)"
  by (simp add: getResponse_def loadCache_def generateHash_def fetchResponse_def map_get_def
      echo_client_eq plain_lib_def empty_object_world_def cold_world_def hextable_def)

subsection \<open>The eviction never fails\<close>

text \<open>
  C10. \<^verbatim>\<open>evictIfNeeded\<close> returns \<^verbatim>\<open>nil\<close> for every cache and every limit: both of
  its \<^verbatim>\<open>return\<close> statements return \<^verbatim>\<open>nil\<close>. So no result of it has the form that
  selects the branch \<^verbatim>\<open>if err := c.evictIfNeeded(cache); err != nil\<close> of
  \<^verbatim>\<open>getResponse\<close>.
\<close>

theorem evictIfNeeded_returns_nil:
  "fst (evictIfNeeded c cache) = None \<and>
   (\<forall>err cache'. evictIfNeeded c cache \<noteq> (Some err, cache'))"
  by (simp add: evictIfNeeded_def Let_def)

end
